theory Spec2Isabelle
  imports Complex_Main "HOL-Library.Sublist"
begin

section \<open>Data model\<close>

text \<open>
  A Python \<open>str\<close> is a sequence of Unicode code points; the warning and cross signs of the
  marker texts lie outside Latin-1, so a string is a list of code points.
\<close>

type_synonym pystr = "nat list"

definition lit :: "string \<Rightarrow> pystr" where
  "lit s = map of_char s"

text \<open>
  The exceptions the engine meets, all subclasses of \<open>Exception\<close>, each with its message
  (\<open>str(e)\<close>): the \<open>ValueError\<close> of the configuration, \<open>asyncio.TimeoutError\<close>, and any
  other exception of a provider.
\<close>

datatype exn = ValueError pystr | TimeoutError pystr | ProviderError pystr

fun exn_str :: "exn \<Rightarrow> pystr" where
  "exn_str (ValueError msg) = msg"
| "exn_str (TimeoutError msg) = msg"
| "exn_str (ProviderError msg) = msg"

text \<open>A \<open>dict\<close> keeps insertion order: an association list with distinct keys.\<close>

type_synonym ('k, 'v) pydict = "('k \<times> 'v) list"

text \<open>\<open>d[k] = v\<close>: an existing key keeps its position, a new key goes last.\<close>

fun dict_set :: "('k, 'v) pydict \<Rightarrow> 'k \<Rightarrow> 'v \<Rightarrow> ('k, 'v) pydict" where
  "dict_set [] k v = [(k, v)]"
| "dict_set ((k', v') # d) k v = (if k' = k then (k, v) # d else (k', v') # dict_set d k v)"

subsection \<open>core/messages.py\<close>

record ChatMessage =
  role :: pystr
  content :: pystr
  metadata :: "(pystr, pystr) pydict"

text \<open>\<open>ChatMessage.__init__\<close>: \<open>self.metadata = metadata or {}\<close>.\<close>

definition ChatMessage_init :: "pystr \<Rightarrow> pystr \<Rightarrow> (pystr, pystr) pydict option \<Rightarrow> ChatMessage" where
  "ChatMessage_init r c md =
     \<lparr>role = r, content = c, metadata = (case md of None \<Rightarrow> [] | Some d \<Rightarrow> d)\<rparr>"

subsection \<open>config/models.py\<close>

datatype provider_name = openai | anthropic | ollama | gemini

record ModelConfig =
  provider :: provider_name
  api_key :: "pystr option"
  endpoint :: "pystr option"
  model :: pystr
  max_tokens :: int
  temperature :: real
  context_window :: int

record RoundTableConfig =
  enabled_models :: "pystr list"
  discussion_rounds :: int
  critique_mode :: bool
  parallel_responses :: bool
  timeout_seconds :: int

datatype theme_name = dark | light

datatype format_name = markdown | plain

record UIConfig =
  theme :: theme_name
  streaming :: bool
  format :: format_name
  show_model_icons :: bool
  show_timestamps :: bool

record AIConfig =
  default_model :: pystr
  models :: "pystr \<rightharpoonup> ModelConfig"
  roundtable :: RoundTableConfig
  ui :: UIConfig

text \<open>
  \<open>AIConfig.get_model_config\<close>. The method reads \<open>self\<close> and assigns nothing; the state
  after the call is returned next to the result, so that this can be stated. A missing key
  raises \<open>ValueError(f"Model '{model_name}' not found in configuration")\<close>. The field
  \<open>models\<close> is declared \<open>Dict[str, ModelConfig]\<close>, so the \<open>isinstance(model_data, dict)\<close>
  branch of the older file never runs on a validated configuration; both files return the
  stored \<open>ModelConfig\<close>.
\<close>

definition get_model_config :: "AIConfig \<Rightarrow> pystr \<Rightarrow> (exn + ModelConfig) \<times> AIConfig" where
  "get_model_config self model_name =
     (case models self model_name of
        None \<Rightarrow>
          (Inl (ValueError (lit ''Model '' @ [39] @ model_name @ [39] @ lit '' not found in configuration'')),
           self)
      | Some model_data \<Rightarrow> (Inr model_data, self))"

subsection \<open>Provider client\<close>

text \<open>
  \<open>providers/factory.py\<close> is not among the sources: the provider a model name resolves to
  and the stream it answers a conversation with are a parameter. A call yields text
  fragments and then either ends or raises (\<open>get_provider\<close> raising is a stream that yields
  nothing and raises). How long a call takes to settle is a second parameter, since only
  the parallel round looks at the clock.
\<close>

datatype stream = Stream (chunks: "pystr list") (failure: "exn option")

type_synonym provider_client = "pystr \<Rightarrow> ChatMessage list \<Rightarrow> stream"

type_synonym timing = "pystr \<Rightarrow> ChatMessage list \<Rightarrow> nat"

type_synonym call = "pystr \<times> ChatMessage list"

section \<open>core/chat.py\<close>

text \<open>
  \<open>str.strip()\<close> removes the leading and trailing characters that \<open>str.isspace\<close> accepts:
  U+0009..U+000D, U+001C..U+0020, U+0085, U+00A0, U+1680, U+2000..U+200A, U+2028, U+2029,
  U+202F, U+205F and U+3000.
\<close>

definition is_space :: "nat \<Rightarrow> bool" where
  "is_space c \<longleftrightarrow>
     (9 \<le> c \<and> c \<le> 13) \<or> (28 \<le> c \<and> c \<le> 32) \<or> c = 133 \<or> c = 160 \<or> c = 5760 \<or>
     (8192 \<le> c \<and> c \<le> 8202) \<or> c = 8232 \<or> c = 8233 \<or> c = 8239 \<or> c = 8287 \<or> c = 12288"

definition strip :: "pystr \<Rightarrow> pystr" where
  "strip s = rev (dropWhile is_space (rev (dropWhile is_space s)))"

text \<open>
  \<open>ChatEngine._get_model_response\<close>: the fragments are appended to \<open>response\<close> one by
  one; an exception of the provider or of its stream leaves the function.
\<close>

definition get_model_response :: "provider_client \<Rightarrow> pystr \<Rightarrow> ChatMessage list \<Rightarrow> exn + pystr" where
  "get_model_response client model_name messages =
     (case client model_name messages of
        Stream cs (Some e) \<Rightarrow> Inl e
      | Stream cs None \<Rightarrow> Inr (strip (foldl (\<lambda>response chunk. response @ chunk) [] cs)))"

text \<open>
  \<open>ChatEngine._display_single_response\<close> looks the model up in the configuration before
  it prints; the printing itself is the presenter's and has no outcome here.
\<close>

definition display_single_response :: "AIConfig \<Rightarrow> pystr \<Rightarrow> pystr \<Rightarrow> exn + unit" where
  "display_single_response cfg model_name response =
     (case fst (get_model_config cfg model_name) of
        Inl e \<Rightarrow> Inl e
      | Inr model_config \<Rightarrow> Inr ())"

text \<open>\<open>ChatMessage("assistant", response, {"model": model})\<close>\<close>

definition assistant_turn :: "pystr \<times> pystr \<Rightarrow> ChatMessage" where
  "assistant_turn = (\<lambda>(m, response).
     ChatMessage_init (lit ''assistant'') response (Some [(lit ''model'', m)]))"

subsection \<open>Sequential round\<close>

text \<open>\<open>f"\<dots> Error: {str(e)}"\<close>, the sign being U+274C.\<close>

definition sequential_error :: "exn \<Rightarrow> pystr" where
  "sequential_error e = [10060] @ lit '' Error: '' @ exn_str e"

text \<open>
  The \<open>try\<close> statement of one iteration of \<open>_run_sequential_round\<close>. The body stores the
  response and then displays it; the handler stores the error text and displays that,
  outside any \<open>try\<close>, so an exception of the second display leaves the round.
\<close>

definition sequential_step ::
  "AIConfig \<Rightarrow> provider_client \<Rightarrow> pystr \<Rightarrow> ChatMessage list \<Rightarrow> (pystr, pystr) pydict
     \<Rightarrow> exn + (pystr, pystr) pydict" where
  "sequential_step cfg client m current_history responses =
     (case (case get_model_response client m current_history of
              Inl e \<Rightarrow> Inl (e, responses)
            | Inr response \<Rightarrow>
                (case display_single_response cfg m response of
                   Inl e \<Rightarrow> Inl (e, dict_set responses m response)
                 | Inr u \<Rightarrow> Inr (dict_set responses m response))) of
        Inr responses' \<Rightarrow> Inr responses'
      | Inl (e, responses') \<Rightarrow>
          (let error_msg = sequential_error e in
           case display_single_response cfg m error_msg of
             Inl e' \<Rightarrow> Inl e'
           | Inr u \<Rightarrow> Inr (dict_set responses' m error_msg)))"

text \<open>
  The loop of \<open>_run_sequential_round\<close> over \<open>enumerate(models)\<close>, from index \<open>i\<close> on. The
  calls made to the provider client are recorded in order, each with the context it got.
\<close>

fun sequential_loop ::
  "AIConfig \<Rightarrow> provider_client \<Rightarrow> ChatMessage list \<Rightarrow> nat \<Rightarrow> pystr list
     \<Rightarrow> (pystr, pystr) pydict \<Rightarrow> call list \<Rightarrow> call list \<times> (exn + (pystr, pystr) pydict)" where
  "sequential_loop cfg client conversation_history i [] responses calls = (calls, Inr responses)"
| "sequential_loop cfg client conversation_history i (m # ms) responses calls =
     (let current_history =
            (if 0 < i \<and> critique_mode (roundtable cfg)
             then conversation_history @ map assistant_turn responses
             else conversation_history)
      in case sequential_step cfg client m current_history responses of
           Inl e \<Rightarrow> (calls @ [(m, current_history)], Inl e)
         | Inr responses' \<Rightarrow>
             sequential_loop cfg client conversation_history (Suc i) ms responses'
               (calls @ [(m, current_history)]))"

definition run_sequential_round ::
  "AIConfig \<Rightarrow> provider_client \<Rightarrow> ChatMessage list \<Rightarrow> pystr list
     \<Rightarrow> call list \<times> (exn + (pystr, pystr) pydict)" where
  "run_sequential_round cfg client conversation_history ms =
     sequential_loop cfg client conversation_history 0 ms [] []"

subsection \<open>Parallel round\<close>

text \<open>
  \<open>f"\<dots> {model} timed out"\<close> (U+26A0 U+FE0F) and \<open>f"\<dots> {model} error: {str(e)}"\<close>
  (U+274C).
\<close>

definition timed_out_marker :: "pystr \<Rightarrow> pystr" where
  "timed_out_marker m = [9888, 65039] @ lit '' '' @ m @ lit '' timed out''"

definition parallel_error_prefix :: "pystr \<Rightarrow> pystr" where
  "parallel_error_prefix m = [10060] @ lit '' '' @ m @ lit '' error: ''"

definition parallel_error_marker :: "pystr \<Rightarrow> exn \<Rightarrow> pystr" where
  "parallel_error_marker m e = parallel_error_prefix m @ exn_str e"


text \<open>
  A task is one call of \<open>_get_model_response\<close> under way: the time at which it settles,
  counted from the start of the round (all tasks are created before the first \<open>await\<close>),
  and what it settles with.
\<close>

type_synonym task = "nat \<times> (exn + pystr)"

text \<open>
  \<open>await asyncio.wait_for(task, timeout)\<close> started at time \<open>now\<close>. The first wait of a round
  (\<open>first\<close>) arms its timer before any of the tasks has run: the call is delivered only
  when it takes less than \<open>timeout\<close>, so a call that would settle just as the time is up,
  and every call when \<open>timeout\<close> is not positive, is cut off. During a later wait the calls
  have been under way since the start of the round: a call that has settled by \<open>now\<close> is
  delivered at once, and so is one that settles by \<open>now + timeout\<close>. A call that is not
  delivered is cancelled and \<open>TimeoutError\<close> is raised when the time is up. The first
  component is the time at which the wait ends.
\<close>

definition wait_for :: "task \<Rightarrow> int \<Rightarrow> nat \<Rightarrow> bool \<Rightarrow> nat \<times> (exn + pystr)" where
  "wait_for t timeout now first =
     (if first then
        (if int (fst t) < timeout then (max now (fst t), snd t)
         else (now + nat timeout, Inl (TimeoutError [])))
      else if fst t \<le> now then (now, snd t)
      else if int (fst t) \<le> int now + timeout then (fst t, snd t)
      else (now + nat timeout, Inl (TimeoutError [])))"

text \<open>The three branches of the \<open>try\<close> statement: what is stored for the model.\<close>

fun parallel_entry :: "pystr \<Rightarrow> exn + pystr \<Rightarrow> pystr" where
  "parallel_entry m (Inr response) = response"
| "parallel_entry m (Inl (TimeoutError msg)) = timed_out_marker m"
| "parallel_entry m (Inl (ValueError msg)) = parallel_error_marker m (ValueError msg)"
| "parallel_entry m (Inl (ProviderError msg)) = parallel_error_marker m (ProviderError msg)"

text \<open>The loop \<open>for model, task in tasks\<close>, the waits one after the other.\<close>

fun parallel_loop ::
  "int \<Rightarrow> nat \<Rightarrow> bool \<Rightarrow> (pystr \<times> task) list \<Rightarrow> (pystr, pystr) pydict
     \<Rightarrow> (pystr, pystr) pydict" where
  "parallel_loop timeout now first [] responses = responses"
| "parallel_loop timeout now first ((m, t) # tasks) responses =
     parallel_loop timeout (fst (wait_for t timeout now first)) False tasks
       (dict_set responses m (parallel_entry m (snd (wait_for t timeout now first))))"

definition run_parallel_round ::
  "AIConfig \<Rightarrow> provider_client \<Rightarrow> timing \<Rightarrow> ChatMessage list \<Rightarrow> pystr list
     \<Rightarrow> call list \<times> (exn + (pystr, pystr) pydict)" where
  "run_parallel_round cfg client timing conversation_history ms =
     (map (\<lambda>m. (m, conversation_history)) ms,
      Inr (parallel_loop (timeout_seconds (roundtable cfg)) 0 True
             (map (\<lambda>m. (m, (timing m conversation_history,
                              get_model_response client m conversation_history))) ms)
             []))"

subsection \<open>The round table\<close>

text \<open>
  How \<open>roundtable_chat\<close> ends: it returns after the warning, it returns after the last
  round (with the conversation it built), or an exception leaves it.
\<close>

datatype run_result = Warned | Completed "ChatMessage list" | Raised exn

fun fails :: "run_result \<Rightarrow> bool" where
  "fails (Raised e) = True"
| "fails r = False"

text \<open>The loop over \<open>range(discussion_rounds)\<close>, with the rounds still to run.\<close>

primrec rounds_loop ::
  "AIConfig \<Rightarrow> provider_client \<Rightarrow> timing \<Rightarrow> bool \<Rightarrow> pystr list \<Rightarrow> nat
     \<Rightarrow> ChatMessage list \<Rightarrow> call list \<Rightarrow> call list \<times> run_result" where
  "rounds_loop cfg client timing par ms 0 conversation_history calls =
     (calls, Completed conversation_history)"
| "rounds_loop cfg client timing par ms (Suc n) conversation_history calls =
     (case (if par then run_parallel_round cfg client timing conversation_history ms
            else run_sequential_round cfg client conversation_history ms) of
        (cs, Inl e) \<Rightarrow> (calls @ cs, Raised e)
      | (cs, Inr responses) \<Rightarrow>
          rounds_loop cfg client timing par ms n
            (conversation_history @ map assistant_turn responses) (calls @ cs))"

definition roundtable_chat ::
  "AIConfig \<Rightarrow> provider_client \<Rightarrow> timing \<Rightarrow> pystr \<Rightarrow> bool \<Rightarrow> call list \<times> run_result" where
  "roundtable_chat cfg client timing prompt par =
     (let ms = enabled_models (roundtable cfg) in
      if length ms < 2 then ([], Warned)
      else rounds_loop cfg client timing par ms (nat (discussion_rounds (roundtable cfg)))
             [ChatMessage_init (lit ''user'') prompt None] [])"

section \<open>Auxiliary notions\<close>

text \<open>
  The keys of a \<open>dict\<close> after the keys \<open>ms\<close> have been assigned in order, starting from
  the keys \<open>ks\<close>: a key keeps the place of its first assignment.
\<close>

primrec insert_keys :: "'k list \<Rightarrow> 'k list \<Rightarrow> 'k list" where
  "insert_keys ks [] = ks"
| "insert_keys ks (m # ms) = insert_keys (if m \<in> set ks then ks else ks @ [m]) ms"

text \<open>What a sequential iteration that does not raise stores for its model.\<close>

fun sequential_entry :: "exn + pystr \<Rightarrow> pystr" where
  "sequential_entry (Inr response) = response"
| "sequential_entry (Inl e) = sequential_error e"

text \<open>
  What the waits of a parallel round end with, in order: the unfolding of
  \<open>parallel_loop\<close> without the dictionary.
\<close>

fun wait_all :: "int \<Rightarrow> nat \<Rightarrow> bool \<Rightarrow> task list \<Rightarrow> (exn + pystr) list" where
  "wait_all timeout now first [] = []"
| "wait_all timeout now first (t # ts) =
     snd (wait_for t timeout now first)
       # wait_all timeout (fst (wait_for t timeout now first)) False ts"

text \<open>
  The deadline of a wait, stated on the durations of the calls alone. \<open>in_time\<close>: a call
  that takes \<open>d\<close> is delivered by a wait that starts at \<open>start\<close>; for the first wait of a
  round when \<open>d\<close> is less than the timeout, for a later one when the call has settled by
  \<open>start\<close> or settles by \<open>start\<close> plus the timeout. \<open>wait_start\<close>: the time at which the
  wait after the waits for calls of the durations \<open>ds\<close> starts, these waits having started
  at \<open>start\<close>; a wait ends when its call is delivered, or else after the timeout.
\<close>

definition in_time :: "int \<Rightarrow> nat \<Rightarrow> bool \<Rightarrow> nat \<Rightarrow> bool" where
  "in_time timeout start first d \<longleftrightarrow>
     (if first then int d < timeout else d \<le> start \<or> int d \<le> int start + timeout)"

fun wait_start :: "int \<Rightarrow> nat \<Rightarrow> bool \<Rightarrow> nat list \<Rightarrow> nat" where
  "wait_start timeout start first [] = start"
| "wait_start timeout start first (d # ds) =
     wait_start timeout
       (if in_time timeout start first d then max start d else start + nat timeout) False ds"

definition round_tasks :: "provider_client \<Rightarrow> timing \<Rightarrow> ChatMessage list \<Rightarrow> pystr list \<Rightarrow> task list" where
  "round_tasks client timing conversation_history ms =
     map (\<lambda>m. (timing m conversation_history,
                get_model_response client m conversation_history)) ms"

definition round_waits ::
  "AIConfig \<Rightarrow> provider_client \<Rightarrow> timing \<Rightarrow> ChatMessage list \<Rightarrow> pystr list \<Rightarrow> (exn + pystr) list" where
  "round_waits cfg client timing conversation_history ms =
     wait_all (timeout_seconds (roundtable cfg)) 0 True
       (round_tasks client timing conversation_history ms)"

section \<open>Example values\<close>

definition demo_model :: ModelConfig where
  "demo_model = \<lparr>provider = openai, api_key = None, endpoint = None, model = lit ''gpt-4'',
     max_tokens = 4000, temperature = 7 / 10, context_window = 4000\<rparr>"

definition demo_ui :: UIConfig where
  "demo_ui = \<lparr>theme = dark, streaming = True, format = markdown, show_model_icons = True,
     show_timestamps = False\<rparr>"

text \<open>Two models, named \<open>a\<close> and \<open>b\<close>, two rounds, critique mode, a timeout of 30.\<close>

definition demo_config :: AIConfig where
  "demo_config = \<lparr>default_model = [97], models = [[97] \<mapsto> demo_model, [98] \<mapsto> demo_model],
     roundtable = \<lparr>enabled_models = [[97], [98]], discussion_rounds = 2, critique_mode = True,
       parallel_responses = False, timeout_seconds = 30\<rparr>,
     ui = demo_ui\<rparr>"

text \<open>
  A client that answers with the name of the model followed by a space, one that raises
  for the model \<open>b\<close>, and three timings: every call takes 1; \<open>a\<close> takes 29 and \<open>b\<close> 50;
  \<open>a\<close> takes 29 and \<open>b\<close> 61.
\<close>

definition demo_client :: provider_client where
  "demo_client m msgs = Stream [m, [32]] None"


definition demo_timing :: timing where
  "demo_timing m msgs = 1"

definition slow_timing :: timing where
  "slow_timing m msgs = (if m = [98] then 50 else 29)"

definition late_timing :: timing where
  "late_timing m msgs = (if m = [98] then 61 else 29)"

text \<open>A conversation at the start of a round: the user turn \<open>hi\<close>.\<close>

definition demo_seed :: "ChatMessage list" where
  "demo_seed = [\<lparr>role = lit ''user'', content = [104, 105], metadata = []\<rparr>]"

text \<open>A timing with a tie: \<open>a\<close> takes 30, the timeout, and \<open>b\<close> takes 1.\<close>

definition tie_timing :: timing where
  "tie_timing m msgs = (if m = [98] then 1 else 30)"

definition one_model_config :: AIConfig where
  "one_model_config = demo_config\<lparr>roundtable := (roundtable demo_config)\<lparr>enabled_models := [[97]]\<rparr>\<rparr>"

section \<open>Role assignment resolver\<close>

text \<open>
  Modelled from the spec: \<open>core/roles.py\<close>, which the command line imports
  \<open>RoundtableRole\<close> from, is not among the sources, and neither are the fields
  \<open>use_role_based_prompting\<close>, \<open>role_rotation\<close> and \<open>role_assignments\<close> of the round-table
  settings. The resolver \<open>active_role_for(model, round_index, settings)\<close> follows
  section 4.2 of the specification: no role without role-based prompting; with rotation
  the role at position \<open>round_index mod |assigned roles|\<close> of the model's assigned roles;
  without rotation the first assigned role. A model with no assignment (none, or an empty
  one) is eligible for every role, in the order generator, critic, refiner, evaluator. The
  assigned roles are a list, in the order in which \<open>config roles --assign\<close> reads them.
\<close>

datatype DiscussionRole = generator | critic | refiner | evaluator

record RoleSettings =
  use_role_based_prompting :: bool
  role_rotation :: bool
  role_assignments :: "pystr \<rightharpoonup> DiscussionRole list"

definition canonical_roles :: "DiscussionRole list" where
  "canonical_roles = [generator, critic, refiner, evaluator]"

definition assigned_roles :: "RoleSettings \<Rightarrow> pystr \<Rightarrow> DiscussionRole list" where
  "assigned_roles settings m =
     (case role_assignments settings m of
        None \<Rightarrow> canonical_roles
      | Some rs \<Rightarrow> if rs = [] then canonical_roles else rs)"

definition active_role_for :: "pystr \<Rightarrow> nat \<Rightarrow> RoleSettings \<Rightarrow> DiscussionRole option" where
  "active_role_for m round_index settings =
     (if \<not> use_role_based_prompting settings then None
      else if role_rotation settings
      then Some (assigned_roles settings m ! (round_index mod length (assigned_roles settings m)))
      else Some (hd (assigned_roles settings m)))"

definition demo_roles :: RoleSettings where
  "demo_roles = \<lparr>use_role_based_prompting = True, role_rotation = True,
     role_assignments = [[97] \<mapsto> [generator, critic]]\<rparr>"

section \<open>Dictionaries and the loops\<close>

lemma set_insert_keys: "set (insert_keys ks ms) = set ks \<union> set ms"
  by (induction ms arbitrary: ks) auto

lemma distinct_insert_keys: "distinct ks \<Longrightarrow> distinct (insert_keys ks ms)"
  by (induction ms arbitrary: ks) auto

lemma insert_keys_fresh: "distinct (ks @ ms) \<Longrightarrow> insert_keys ks ms = ks @ ms"
  by (induction ms arbitrary: ks) auto

lemma length_insert_keys: "length (insert_keys [] ms) = card (set ms)"
proof -
  have "distinct (insert_keys [] ms)" by (rule distinct_insert_keys) simp
  then have "length (insert_keys [] ms) = card (set (insert_keys [] ms))"
    by (simp add: distinct_card)
  then show ?thesis by (simp add: set_insert_keys)
qed

lemma dict_set_keys:
  "map fst (dict_set d k v) = (if k \<in> set (map fst d) then map fst d else map fst d @ [k])"
  by (induction d k v rule: dict_set.induct) auto

lemma dict_set_fresh: "k \<notin> fst ` set d \<Longrightarrow> dict_set d k v = d @ [(k, v)]"
  by (induction d k v rule: dict_set.induct) auto


lemma sequential_step_cases:
  "sequential_step cfg client m h rs =
     (case models cfg m of
        None \<Rightarrow> Inl (ValueError (lit ''Model '' @ [39] @ m @ [39] @ lit '' not found in configuration''))
      | Some mc \<Rightarrow> Inr (dict_set rs m (sequential_entry (get_model_response client m h))))"
  by (auto simp: sequential_step_def display_single_response_def get_model_config_def
      split: option.splits sum.splits)

lemma sequential_loop_keys:
  "sequential_loop cfg client conv i ms rs calls = (calls', Inr rs')
   \<Longrightarrow> map fst rs' = insert_keys (map fst rs) ms"
proof (induction ms arbitrary: i rs calls)
  case Nil
  then show ?case by simp
next
  case (Cons m ms)
  then show ?case
    by (auto simp: sequential_step_cases dict_set_keys Let_def split: option.splits)
qed

lemma sequential_loop_completes:
  "set ms \<subseteq> dom (models cfg)
   \<Longrightarrow> \<exists>calls' rs'. sequential_loop cfg client conv i ms rs calls = (calls', Inr rs')"
proof (induction ms arbitrary: i rs calls)
  case Nil
  then show ?case by simp
next
  case (Cons m ms)
  then show ?case
    by (auto simp: sequential_step_cases Let_def split: option.splits)
qed

lemma parallel_loop_keys:
  "map fst (parallel_loop tmo now first tasks rs) = insert_keys (map fst rs) (map fst tasks)"
  by (induction tmo now first tasks rs rule: parallel_loop.induct) (auto simp: dict_set_keys)

lemma parallel_loop_distinct:
  "distinct (map fst tasks) \<Longrightarrow> set (map fst tasks) \<inter> fst ` set rs = {}
   \<Longrightarrow> parallel_loop tmo now first tasks rs =
       rs @ map (\<lambda>(m, r). (m, parallel_entry m r))
              (zip (map fst tasks) (wait_all tmo now first (map snd tasks)))"
proof (induction tmo now first tasks rs rule: parallel_loop.induct)
  case (1 timeout now first responses)
  then show ?case by simp
next
  case (2 timeout now first m t tasks responses)
  have fresh: "m \<notin> fst ` set responses" using "2.prems" by auto
  have "set (map fst tasks) \<inter> fst ` set (dict_set responses m v) = {}" for v
    using "2.prems" by (auto simp: dict_set_fresh [OF fresh])
  with 2 show ?case by (simp add: dict_set_fresh [OF fresh])
qed

lemma sequential_loop_calls:
  assumes "sequential_loop cfg client conv i ms rs calls = (calls', Inr rs')"
    and "distinct ms" and "set ms \<inter> fst ` set rs = {}"
  shows "\<exists>new. rs' = rs @ new \<and> map fst new = ms
           \<and> length calls' = length calls + length ms
           \<and> take (length calls) calls' = calls
           \<and> (\<forall>k<length ms. calls' ! (length calls + k) =
                 (ms ! k, if 0 < i + k \<and> critique_mode (roundtable cfg)
                          then conv @ map assistant_turn (rs @ take k new) else conv))
           \<and> (\<forall>k<length ms. new ! k =
                 (ms ! k, sequential_entry (get_model_response client (ms ! k)
                                              (snd (calls' ! (length calls + k))))))"
  using assms
proof (induction ms arbitrary: i rs calls)
  case Nil
  then show ?case by simp
next
  case (Cons m ms)
  define ctx where "ctx = (if 0 < i \<and> critique_mode (roundtable cfg)
                            then conv @ map assistant_turn rs else conv)"
  define v where "v = sequential_entry (get_model_response client m ctx)"
  have fresh: "m \<notin> fst ` set rs" using Cons.prems(3) by auto
  from Cons.prems(1) obtain mc where mc: "models cfg m = Some mc"
    by (auto simp: sequential_step_cases Let_def split: option.splits)
  have step: "sequential_step cfg client m ctx rs = Inr (rs @ [(m, v)])"
    by (simp add: sequential_step_cases mc v_def dict_set_fresh [OF fresh])
  have loop: "sequential_loop cfg client conv (Suc i) ms (rs @ [(m, v)]) (calls @ [(m, ctx)])
                = (calls', Inr rs')"
    using Cons.prems(1) step by (simp add: ctx_def Let_def)
  have disj: "set ms \<inter> fst ` set (rs @ [(m, v)]) = {}"
    using Cons.prems(2,3) by auto
  have dms: "distinct ms" using Cons.prems(2) by simp
  from Cons.IH [OF loop dms disj]
  obtain new' where new': "rs' = (rs @ [(m, v)]) @ new'" "map fst new' = ms"
      "length calls' = length (calls @ [(m, ctx)]) + length ms"
      "take (length (calls @ [(m, ctx)])) calls' = calls @ [(m, ctx)]"
      "\<forall>k<length ms. calls' ! (length (calls @ [(m, ctx)]) + k) =
          (ms ! k, if 0 < Suc i + k \<and> critique_mode (roundtable cfg)
                   then conv @ map assistant_turn ((rs @ [(m, v)]) @ take k new') else conv)"
      "\<forall>k<length ms. new' ! k =
          (ms ! k, sequential_entry (get_model_response client (ms ! k)
                                       (snd (calls' ! (length (calls @ [(m, ctx)]) + k)))))"
    by (elim exE conjE) (rule that)
  have pre: "take (length calls) calls' = calls"
  proof -
    from new'(4) have "take (length calls) (take (Suc (length calls)) calls')
        = take (length calls) (calls @ [(m, ctx)])"
      by simp
    then show ?thesis by (simp add: min_def)
  qed
  have at0: "calls' ! length calls = (m, ctx)"
  proof -
    from new'(4) have "take (Suc (length calls)) calls' ! length calls
        = (calls @ [(m, ctx)]) ! length calls"
      by simp
    then show ?thesis by simp
  qed
  have nth: "calls' ! (length calls + k) =
          ((m # ms) ! k, if 0 < i + k \<and> critique_mode (roundtable cfg)
                   then conv @ map assistant_turn (rs @ take k ((m, v) # new')) else conv)"
    if "k < length (m # ms)" for k
  proof (cases k)
    case 0
    then show ?thesis by (simp add: at0 ctx_def)
  next
    case (Suc j)
    with that have "j < length ms" by simp
    with new'(5) Suc show ?thesis by simp
  qed
  have val: "((m, v) # new') ! k =
          ((m # ms) ! k, sequential_entry (get_model_response client ((m # ms) ! k)
                                             (snd (calls' ! (length calls + k)))))"
    if "k < length (m # ms)" for k
  proof (cases k)
    case 0
    then show ?thesis by (simp add: at0 v_def)
  next
    case (Suc j)
    with that have "j < length ms" by simp
    with new'(6) Suc show ?thesis by simp
  qed
  show ?case
    by (rule exI [of _ "(m, v) # new'"]) (use new' pre nth val in simp)
qed

section \<open>The round table\<close>

lemma round_keys:
  "(if par then run_parallel_round cfg client timing conv ms
    else run_sequential_round cfg client conv ms) = (cs, Inr rs)
   \<Longrightarrow> map fst rs = insert_keys [] ms"
  by (cases par)
     (auto simp: run_parallel_round_def run_sequential_round_def parallel_loop_keys comp_def
           dest: sequential_loop_keys)

lemma tag_assistant_turn:
  "map (\<lambda>t. (role t, metadata t)) (map assistant_turn rs)
     = map (\<lambda>m. (lit ''assistant'', [(lit ''model'', m)])) (map fst rs)"
  by (induction rs) (auto simp: assistant_turn_def ChatMessage_init_def)

lemma rounds_loop_turns:
  "rounds_loop cfg client timing par ms n conv calls = (calls', Completed conv')
   \<Longrightarrow> \<exists>turns. conv' = conv @ turns
         \<and> map (\<lambda>t. (role t, metadata t)) turns
             = concat (replicate n (map (\<lambda>m. (lit ''assistant'', [(lit ''model'', m)]))
                                       (insert_keys [] ms)))"
proof (induction n arbitrary: conv calls)
  case 0
  then show ?case by simp
next
  case (Suc n)
  obtain cs r where round: "(if par then run_parallel_round cfg client timing conv ms
      else run_sequential_round cfg client conv ms) = (cs, r)"
    by (cases "if par then run_parallel_round cfg client timing conv ms
      else run_sequential_round cfg client conv ms") auto
  show ?case
  proof (cases r)
    case (Inl e)
    with Suc.prems round show ?thesis by simp
  next
    case (Inr rs)
    with Suc.prems round
    have "rounds_loop cfg client timing par ms n (conv @ map assistant_turn rs) (calls @ cs)
            = (calls', Completed conv')"
      by simp
    from Suc.IH [OF this] obtain turns where turns:
      "conv' = (conv @ map assistant_turn rs) @ turns"
      "map (\<lambda>t. (role t, metadata t)) turns
         = concat (replicate n (map (\<lambda>m. (lit ''assistant'', [(lit ''model'', m)]))
                                   (insert_keys [] ms)))"
      by (elim exE conjE) (rule that)
    from round Inr have keys: "map fst rs = insert_keys [] ms"
      by (auto dest: round_keys)
    show ?thesis
      by (rule exI [of _ "map assistant_turn rs @ turns"])
         (simp add: turns tag_assistant_turn keys del: map_map)
  qed
qed

lemma rounds_loop_completes:
  "par \<or> set ms \<subseteq> dom (models cfg)
   \<Longrightarrow> \<exists>calls' conv'. rounds_loop cfg client timing par ms n conv calls = (calls', Completed conv')"
proof (induction n arbitrary: conv calls)
  case 0
  then show ?case by simp
next
  case (Suc n)
  show ?case
  proof (cases par)
    case True
    with Suc show ?thesis by (simp add: run_parallel_round_def)
  next
    case False
    with Suc.prems have "set ms \<subseteq> dom (models cfg)" by simp
    from sequential_loop_completes [OF this]
    obtain cs rs where "run_sequential_round cfg client conv ms = (cs, Inr rs)"
      unfolding run_sequential_round_def by blast
    with False Suc show ?thesis by simp
  qed
qed

lemma roundtable_chat_completes:
  "2 \<le> length (enabled_models (roundtable cfg))
   \<Longrightarrow> par \<or> set (enabled_models (roundtable cfg)) \<subseteq> dom (models cfg)
   \<Longrightarrow> \<exists>calls conv. roundtable_chat cfg client timing prompt par = (calls, Completed conv)"
  using rounds_loop_completes [of par "enabled_models (roundtable cfg)" cfg]
  by (simp add: roundtable_chat_def Let_def)

lemma roundtable_chat_turns:
  assumes "roundtable_chat cfg client timing prompt par = (calls, Completed conv)"
  shows "\<exists>turns. conv = ChatMessage_init (lit ''user'') prompt None # turns
         \<and> map (\<lambda>t. (role t, metadata t)) turns
             = concat (replicate (nat (discussion_rounds (roundtable cfg)))
                 (map (\<lambda>m. (lit ''assistant'', [(lit ''model'', m)]))
                    (insert_keys [] (enabled_models (roundtable cfg)))))"
proof -
  from assms have "rounds_loop cfg client timing par (enabled_models (roundtable cfg))
      (nat (discussion_rounds (roundtable cfg))) [ChatMessage_init (lit ''user'') prompt None] []
      = (calls, Completed conv)"
    by (simp add: roundtable_chat_def Let_def split: if_splits)
  from rounds_loop_turns [OF this] show ?thesis by simp
qed

lemma length_concat_replicate: "length (concat (replicate n xs)) = n * length xs"
  by (induction n) auto

text \<open>
  C1: a run of the round table that completes (so that at least two models are enabled)
  with a number of rounds that is not negative ends with a conversation of
  \<open>1 + discussion_rounds * n\<close> turns, \<open>n\<close> being the number of distinct enabled names, which
  is the length of \<open>enabled_models\<close> when no name is listed twice: the user turn of the
  prompt, then assistant turns only.
\<close>

theorem roundtable_chat_length:
  assumes "roundtable_chat cfg client timing prompt par = (calls, Completed conv)"
    and "0 \<le> discussion_rounds (roundtable cfg)"
  shows "2 \<le> length (enabled_models (roundtable cfg))
     \<and> int (length conv)
         = 1 + discussion_rounds (roundtable cfg) * int (card (set (enabled_models (roundtable cfg))))
     \<and> (distinct (enabled_models (roundtable cfg)) \<longrightarrow>
          int (length conv)
            = 1 + discussion_rounds (roundtable cfg) * int (length (enabled_models (roundtable cfg))))
     \<and> hd conv = ChatMessage_init (lit ''user'') prompt None
     \<and> (\<forall>t \<in> set (tl conv). role t = lit ''assistant'')"
proof -
  let ?ms = "enabled_models (roundtable cfg)"
  let ?n = "nat (discussion_rounds (roundtable cfg))"
  from roundtable_chat_turns [OF assms(1)] obtain turns where turns:
    "conv = ChatMessage_init (lit ''user'') prompt None # turns"
    "map (\<lambda>t. (role t, metadata t)) turns
       = concat (replicate ?n (map (\<lambda>m. (lit ''assistant'', [(lit ''model'', m)]))
                                  (insert_keys [] ?ms)))"
    by (elim exE conjE) (rule that)
  have "length turns = length (map (\<lambda>t. (role t, metadata t)) turns)" by simp
  also have "\<dots> = ?n * card (set ?ms)"
    by (simp only: turns(2) length_concat_replicate length_map length_insert_keys)
  finally have len: "length turns = ?n * card (set ?ms)" .
  have two: "2 \<le> length ?ms"
    using assms(1) by (auto simp: roundtable_chat_def Let_def split: if_splits)
  have count: "int (length conv) = 1 + discussion_rounds (roundtable cfg) * int (card (set ?ms))"
    using len assms(2) by (simp add: turns(1))
  have roles: "role t = lit ''assistant''" if "t \<in> set turns" for t
  proof -
    from that have "(role t, metadata t) \<in> set (map (\<lambda>t. (role t, metadata t)) turns)"
      by (simp only: set_map) (rule imageI)
    then show ?thesis unfolding turns(2) by (auto split: if_splits)
  qed
  show ?thesis
    using two count roles by (auto simp: turns(1) distinct_card)
qed

theorem roundtable_chat_length_witness:
  "\<exists>calls conv. roundtable_chat demo_config demo_client demo_timing [104, 105] False
       = (calls, Completed conv) \<and> int (length conv) = 5"
proof -
  have "2 \<le> length (enabled_models (roundtable demo_config))"
    and "False \<or> set (enabled_models (roundtable demo_config)) \<subseteq> dom (models demo_config)"
    by (simp_all add: demo_config_def)
  from roundtable_chat_completes [OF this]
  obtain calls conv where run:
    "roundtable_chat demo_config demo_client demo_timing [104, 105] False = (calls, Completed conv)"
    by blast
  have rounds: "0 \<le> discussion_rounds (roundtable demo_config)"
    by (simp add: demo_config_def)
  from roundtable_chat_length [OF run rounds]
  have "int (length conv) = 5" by (simp add: demo_config_def)
  with run show ?thesis by blast
qed

text \<open>
  C4: in a completed run, parallel or sequential and whatever the calls' timing, the
  assistant turns carry the model tags of \<open>enabled_models\<close> in the configured order, once
  per round.
\<close>

theorem roundtable_turn_order:
  assumes "roundtable_chat cfg client timing prompt par = (calls, Completed conv)"
    and "distinct (enabled_models (roundtable cfg))"
  shows "map (\<lambda>t. (role t, metadata t)) (tl conv)
           = concat (replicate (nat (discussion_rounds (roundtable cfg)))
               (map (\<lambda>m. (lit ''assistant'', [(lit ''model'', m)]))
                  (enabled_models (roundtable cfg))))"
proof -
  from assms(2) have "insert_keys [] (enabled_models (roundtable cfg)) = enabled_models (roundtable cfg)"
    using insert_keys_fresh [of "[]"] by simp
  with roundtable_chat_turns [OF assms(1)] show ?thesis by auto
qed

theorem roundtable_turn_order_witness:
  "\<exists>calls conv. roundtable_chat demo_config demo_client slow_timing [104, 105] True
       = (calls, Completed conv)
     \<and> map (\<lambda>t. (role t, metadata t)) (tl conv)
         = [(lit ''assistant'', [(lit ''model'', [97])]), (lit ''assistant'', [(lit ''model'', [98])]),
            (lit ''assistant'', [(lit ''model'', [97])]), (lit ''assistant'', [(lit ''model'', [98])])]"
proof -
  have "2 \<le> length (enabled_models (roundtable demo_config))"
    and "True \<or> set (enabled_models (roundtable demo_config)) \<subseteq> dom (models demo_config)"
    by (simp_all add: demo_config_def)
  from roundtable_chat_completes [OF this]
  obtain calls conv where run:
    "roundtable_chat demo_config demo_client slow_timing [104, 105] True = (calls, Completed conv)"
    by blast
  have d: "distinct (enabled_models (roundtable demo_config))"
    by (simp add: demo_config_def)
  from roundtable_turn_order [OF run d]
  have "map (\<lambda>t. (role t, metadata t)) (tl conv)
         = [(lit ''assistant'', [(lit ''model'', [97])]), (lit ''assistant'', [(lit ''model'', [98])]),
            (lit ''assistant'', [(lit ''model'', [97])]), (lit ''assistant'', [(lit ''model'', [98])])]"
    by (simp add: demo_config_def eval_nat_numeral)
  then show ?thesis
    by (intro exI [of _ calls] exI [of _ conv]) (simp only: run simp_thms)
qed

text \<open>
  C2, as the code has it: with fewer than two enabled models \<open>roundtable_chat\<close> returns
  after its warning; it raises nothing, calls no provider and builds no conversation.
\<close>

theorem roundtable_chat_insufficient:
  "length (enabled_models (roundtable cfg)) < 2
   \<Longrightarrow> roundtable_chat cfg client timing prompt par = ([], Warned)"
  by (simp add: roundtable_chat_def)

theorem roundtable_chat_insufficient_witness:
  "length (enabled_models (roundtable one_model_config)) < 2
   \<and> roundtable_chat one_model_config demo_client demo_timing [104, 105] False = ([], Warned)"
  using roundtable_chat_insufficient [of one_model_config demo_client demo_timing "[104, 105]" False]
  by (simp add: one_model_config_def demo_config_def)

theorem roundtable_chat_insufficient_counterexample:
  "length (enabled_models (roundtable one_model_config)) < 2
   \<and> \<not> fails (snd (roundtable_chat one_model_config demo_client demo_timing [104, 105] False))"
  by (simp add: roundtable_chat_def one_model_config_def demo_config_def)

section \<open>The rounds\<close>

lemma assistant_turn_record:
  "assistant_turn = (\<lambda>(m, response).
     \<lparr>role = lit ''assistant'', content = response, metadata = [(lit ''model'', m)]\<rparr>)"
  by (simp add: assistant_turn_def ChatMessage_init_def)

lemma sequential_entry_case:
  "sequential_entry x =
     (case x of Inr response \<Rightarrow> response | Inl e \<Rightarrow> [10060] @ lit '' Error: '' @ exn_str e)"
  by (cases x) (simp_all add: sequential_error_def)

text \<open>
  C3: in a sequential round over distinct models that completes, the \<open>i\<close>-th call goes to
  the \<open>i\<close>-th model; with critique mode and \<open>i > 0\<close> its context is the conversation at
  the start of the round followed by the entries of the models before it, each as an
  assistant turn tagged with its model, and otherwise it is the conversation at the start
  of the round. The entry of a model is what its call gave.
\<close>

theorem sequential_round_context:
  assumes "run_sequential_round cfg client conv ms = (calls, Inr responses)"
    and "distinct ms" and "i < length ms"
  shows "length calls = length ms \<and> map fst responses = ms
     \<and> calls ! i =
         (ms ! i,
          if 0 < i \<and> critique_mode (roundtable cfg)
          then conv @ map (\<lambda>(m, response).
                 \<lparr>role = lit ''assistant'', content = response, metadata = [(lit ''model'', m)]\<rparr>)
                 (take i responses)
          else conv)
     \<and> responses ! i =
         (ms ! i,
          case get_model_response client (ms ! i) (snd (calls ! i)) of
            Inr response \<Rightarrow> response
          | Inl e \<Rightarrow> [10060] @ lit '' Error: '' @ exn_str e)"
proof -
  from assms(1) have loop: "sequential_loop cfg client conv 0 ms [] [] = (calls, Inr responses)"
    by (simp add: run_sequential_round_def)
  have disj: "set ms \<inter> fst ` set ([] :: (pystr, pystr) pydict) = {}" by simp
  from sequential_loop_calls [OF loop assms(2) disj] assms(3)
  have "length calls = length ms \<and> map fst responses = ms
     \<and> calls ! i = (ms ! i, if 0 < i \<and> critique_mode (roundtable cfg)
                             then conv @ map assistant_turn (take i responses) else conv)
     \<and> responses ! i = (ms ! i, sequential_entry (get_model_response client (ms ! i) (snd (calls ! i))))"
    by auto
  then show ?thesis by (simp only: assistant_turn_record sequential_entry_case)
qed

lemma demo_sequential_round:
  "run_sequential_round demo_config demo_client demo_seed [[97], [98]]
     = ([([97], demo_seed),
         ([98], demo_seed @ [\<lparr>role = lit ''assistant'', content = [97],
                                metadata = [(lit ''model'', [97])]\<rparr>])],
        Inr [([97], [97]), ([98], [98])])"
  by (simp add: run_sequential_round_def sequential_step_cases demo_config_def demo_client_def
      get_model_response_def strip_def is_space_def assistant_turn_record)

theorem sequential_round_context_witness:
  "distinct [[97], [98 :: nat]] \<and> (1 :: nat) < length [[97], [98 :: nat]]
   \<and> critique_mode (roundtable demo_config)
   \<and> (\<exists>calls responses.
         run_sequential_round demo_config demo_client demo_seed [[97], [98]] = (calls, Inr responses)
       \<and> calls ! 1 =
           ([98], demo_seed @ [\<lparr>role = lit ''assistant'', content = [97],
                                  metadata = [(lit ''model'', [97])]\<rparr>])
       \<and> responses ! 1 = ([98], [98]))"
proof -
  have d: "distinct [[97], [98 :: nat]]" and i: "(1 :: nat) < length [[97], [98 :: nat]]" by simp_all
  have c: "critique_mode (roundtable demo_config)" by (simp add: demo_config_def)
  have r: "get_model_response demo_client [98] msgs = Inr [98]" for msgs
    by (simp add: get_model_response_def demo_client_def strip_def is_space_def)
  note t = sequential_round_context [OF demo_sequential_round d i]
  from t c have call: "[([97], demo_seed),
         ([98], demo_seed @ [\<lparr>role = lit ''assistant'', content = [97],
                                metadata = [(lit ''model'', [97])]\<rparr>])] ! 1 =
           ([98], demo_seed @ [\<lparr>role = lit ''assistant'', content = [97],
                                  metadata = [(lit ''model'', [97])]\<rparr>])"
    by simp
  from t have entry: "[([97], [97]), ([98], [98 :: nat])] ! 1 = ([98 :: nat], [98 :: nat])"
    by (simp add: r)
  show ?thesis
    by (intro conjI exI) (rule d i c demo_sequential_round call entry)+
qed

lemma wait_for_spec:
  "wait_for t tmo now first =
     (if in_time tmo now first (fst t) then (max now (fst t), snd t)
      else (now + nat tmo, Inl (TimeoutError [])))"
  by (auto simp: wait_for_def in_time_def max_def)


lemma length_wait_all: "length (wait_all tmo now first ts) = length ts"
  by (induction ts arbitrary: now first) auto

lemma wait_all_nth:
  "i < length ts \<Longrightarrow>
   wait_all tmo now first ts ! i =
     (if in_time tmo (wait_start tmo now first (map fst (take i ts))) (first \<and> i = 0) (fst (ts ! i))
      then snd (ts ! i) else Inl (TimeoutError []))"
proof (induction ts arbitrary: now first i)
  case Nil
  then show ?case by simp
next
  case (Cons t ts)
  show ?case
  proof (cases i)
    case 0
    then show ?thesis by (simp add: wait_for_spec)
  next
    case (Suc j)
    with Cons.prems have j: "j < length ts" by simp
    from Cons.IH [OF j, of "fst (wait_for t tmo now first)" False] Suc
    show ?thesis by (simp add: wait_for_spec)
  qed
qed

lemma in_time_end: "0 \<le> tmo \<Longrightarrow> in_time tmo start first d \<Longrightarrow> int (max start d) \<le> int start + tmo"
  by (auto simp: in_time_def max_def split: if_splits)

lemma wait_start_bound:
  "0 \<le> tmo \<Longrightarrow> int (wait_start tmo start first ds) \<le> int start + int (length ds) * tmo"
proof (induction ds arbitrary: start first)
  case Nil
  then show ?case by simp
next
  case (Cons d ds)
  let ?next = "if in_time tmo start first d then max start d else start + nat tmo"
  have "int ?next \<le> int start + tmo"
    using in_time_end [OF Cons.prems, of start first d] Cons.prems by auto
  with Cons.IH [OF Cons.prems, of ?next False]
  show ?case by (simp add: algebra_simps)
qed

lemma in_time_short: "int d < tmo \<Longrightarrow> in_time tmo start first d"
  by (simp add: in_time_def)

lemma parallel_round_responses:
  assumes "distinct ms"
  shows "snd (run_parallel_round cfg client timing conv ms)
           = Inr (map (\<lambda>(m, r). (m, parallel_entry m r))
                    (zip ms (round_waits cfg client timing conv ms)))"
proof -
  let ?tasks = "map (\<lambda>m. (m, (timing m conv, get_model_response client m conv))) ms"
  have fst: "map fst ?tasks = ms" by (simp add: comp_def)
  have snd: "map snd ?tasks = round_tasks client timing conv ms"
    by (simp add: comp_def round_tasks_def)
  have "distinct (map fst ?tasks)" using assms by (simp only: fst)
  moreover have "set (map fst ?tasks) \<inter> fst ` set ([] :: (pystr, pystr) pydict) = {}" by simp
  ultimately have "parallel_loop (timeout_seconds (roundtable cfg)) 0 True ?tasks []
      = [] @ map (\<lambda>(m, r). (m, parallel_entry m r))
                 (zip (map fst ?tasks) (wait_all (timeout_seconds (roundtable cfg)) 0 True (map snd ?tasks)))"
    by (rule parallel_loop_distinct)
  then show ?thesis
    by (simp only: fst snd run_parallel_round_def round_waits_def snd_conv append_Nil)
qed


lemma length_round_waits: "length (round_waits cfg client timing conv ms) = length ms"
  by (simp add: round_waits_def round_tasks_def length_wait_all)

lemma round_waits_nth:
  assumes "i < length ms"
  shows "round_waits cfg client timing conv ms ! i
     = (if in_time (timeout_seconds (roundtable cfg))
             (wait_start (timeout_seconds (roundtable cfg)) 0 True
                (map (\<lambda>m. timing m conv) (take i ms)))
             (i = 0) (timing (ms ! i) conv)
        then get_model_response client (ms ! i) conv else Inl (TimeoutError []))"
  using assms
  by (simp add: round_waits_def wait_all_nth round_tasks_def take_map comp_def)



text \<open>
  C6, as the code has it: the waits run one after the other, and the wait for a model
  lasts at most \<open>timeout_seconds\<close> from the moment it starts, which is when the wait for
  the model before it ended. The entry of the \<open>i\<close>-th model is its own result when its
  call is in time for that wait, and the timeout marker otherwise: for the first model
  when the call takes less than \<open>timeout_seconds\<close>, for the second when the call has
  settled by the end of the first wait or settles within \<open>timeout_seconds\<close> of it. A call
  that takes less than \<open>timeout_seconds\<close> always gives its own result, whatever the other
  calls do; the call of the \<open>i\<close>-th model is cut off once it takes longer than
  \<open>(i + 1) * timeout_seconds\<close>.
\<close>

theorem parallel_round_deadline:
  assumes "distinct ms" and "i < length ms"
  shows "\<exists>rs. snd (run_parallel_round cfg client timing conv ms) = Inr rs
     \<and> fst (rs ! i) = ms ! i
     \<and> snd (rs ! i) =
         (if in_time (timeout_seconds (roundtable cfg))
               (wait_start (timeout_seconds (roundtable cfg)) 0 True
                  (map (\<lambda>m. timing m conv) (take i ms)))
               (i = 0) (timing (ms ! i) conv)
          then parallel_entry (ms ! i) (get_model_response client (ms ! i) conv)
          else timed_out_marker (ms ! i))
     \<and> (i = 0 \<longrightarrow>
          snd (rs ! i) =
            (if int (timing (ms ! 0) conv) < timeout_seconds (roundtable cfg)
             then parallel_entry (ms ! 0) (get_model_response client (ms ! 0) conv)
             else timed_out_marker (ms ! 0)))
     \<and> (i = 1 \<longrightarrow>
          snd (rs ! i) =
            (if timing (ms ! 1) conv
                  \<le> (if int (timing (ms ! 0) conv) < timeout_seconds (roundtable cfg)
                      then timing (ms ! 0) conv else nat (timeout_seconds (roundtable cfg)))
                \<or> int (timing (ms ! 1) conv)
                  \<le> int (if int (timing (ms ! 0) conv) < timeout_seconds (roundtable cfg)
                          then timing (ms ! 0) conv else nat (timeout_seconds (roundtable cfg)))
                    + timeout_seconds (roundtable cfg)
             then parallel_entry (ms ! 1) (get_model_response client (ms ! 1) conv)
             else timed_out_marker (ms ! 1)))
     \<and> (int (timing (ms ! i) conv) < timeout_seconds (roundtable cfg) \<longrightarrow>
          snd (rs ! i) = parallel_entry (ms ! i) (get_model_response client (ms ! i) conv))
     \<and> (0 \<le> timeout_seconds (roundtable cfg)
          \<and> (int i + 1) * timeout_seconds (roundtable cfg) < int (timing (ms ! i) conv) \<longrightarrow>
          snd (rs ! i) = timed_out_marker (ms ! i))"
proof -
  let ?tmo = "timeout_seconds (roundtable cfg)"
  let ?ws = "round_waits cfg client timing conv ms"
  let ?rs = "map (\<lambda>(m, r). (m, parallel_entry m r)) (zip ms ?ws)"
  let ?start = "wait_start ?tmo 0 True (map (\<lambda>m. timing m conv) (take i ms))"
  let ?d = "timing (ms ! i) conv"
  let ?own = "parallel_entry (ms ! i) (get_model_response client (ms ! i) conv)"
  have len: "length ?ws = length ms" by (rule length_round_waits)
  have nth: "?rs ! i = (ms ! i, parallel_entry (ms ! i) (?ws ! i))"
    using assms(2) len by simp
  have exact: "snd (?rs ! i) = (if in_time ?tmo ?start (i = 0) ?d then ?own else timed_out_marker (ms ! i))"
    by (simp add: nth round_waits_nth [OF assms(2)])
  have first: "snd (?rs ! i) =
            (if int (timing (ms ! 0) conv) < ?tmo
             then parallel_entry (ms ! 0) (get_model_response client (ms ! 0) conv)
             else timed_out_marker (ms ! 0))" if "i = 0"
    using exact that by (simp add: in_time_def)
  have second: "snd (?rs ! i) =
            (if timing (ms ! 1) conv
                  \<le> (if int (timing (ms ! 0) conv) < ?tmo then timing (ms ! 0) conv else nat ?tmo)
                \<or> int (timing (ms ! 1) conv)
                  \<le> int (if int (timing (ms ! 0) conv) < ?tmo then timing (ms ! 0) conv else nat ?tmo)
                    + ?tmo
             then parallel_entry (ms ! 1) (get_model_response client (ms ! 1) conv)
             else timed_out_marker (ms ! 1))" if "i = 1"
  proof -
    from that assms(2) have "take i ms = [ms ! 0]"
      by (cases ms) simp_all
    then have st: "?start = (if int (timing (ms ! 0) conv) < ?tmo then timing (ms ! 0) conv else nat ?tmo)"
      by (simp add: in_time_def)
    from exact [unfolded st] that show ?thesis by (simp add: in_time_def)
  qed
  have short: "snd (?rs ! i) = ?own" if "int ?d < ?tmo"
    using that by (simp add: exact in_time_short)
  have long: "snd (?rs ! i) = timed_out_marker (ms ! i)"
    if "0 \<le> ?tmo \<and> (int i + 1) * ?tmo < int ?d"
  proof -
    from that have t: "0 \<le> ?tmo" and l: "(int i + 1) * ?tmo < int ?d" by simp_all
    have "int ?start \<le> int 0 + int (length (map (\<lambda>m. timing m conv) (take i ms))) * ?tmo"
      by (rule wait_start_bound [OF t])
    then have "int ?start \<le> int i * ?tmo"
      using assms(2) by (simp add: min_def)
    with l have "int ?start + ?tmo < int ?d" by (simp add: algebra_simps)
    with t have "\<not> in_time ?tmo ?start (i = 0) ?d"
      by (auto simp: in_time_def)
    then show ?thesis by (simp add: exact)
  qed
  have run: "snd (run_parallel_round cfg client timing conv ms) = Inr ?rs"
    by (rule parallel_round_responses [OF assms(1)])
  have key: "fst (?rs ! i) = ms ! i" by (simp add: nth)
  show ?thesis
    by (rule exI [of _ ?rs])
       (intro conjI impI, rule run, rule key, rule exact, erule first, erule second,
        erule short, erule long)
qed

theorem parallel_round_deadline_witness:
  "distinct [[97], [98 :: nat]]
   \<and> (\<exists>rs. snd (run_parallel_round demo_config demo_client slow_timing demo_seed [[97], [98]]) = Inr rs
          \<and> rs ! 0 = ([97], [97]) \<and> rs ! 1 = ([98], [98]))
   \<and> (\<exists>rs. snd (run_parallel_round demo_config demo_client late_timing demo_seed [[97], [98]]) = Inr rs
          \<and> rs ! 1 = ([98], timed_out_marker [98]))
   \<and> (\<exists>rs. snd (run_parallel_round demo_config demo_client tie_timing demo_seed [[97], [98]]) = Inr rs
          \<and> rs ! 0 = ([97], timed_out_marker [97]) \<and> rs ! 1 = ([98], [98]))"
proof -
  have d: "distinct [[97], [98 :: nat]]" by simp
  have i0: "(0 :: nat) < length [[97], [98 :: nat]]" and i1: "(1 :: nat) < length [[97], [98 :: nat]]"
    by simp_all
  have ra: "parallel_entry [97] (get_model_response demo_client [97] msgs) = [97]"
    and rb: "parallel_entry [98] (get_model_response demo_client [98] msgs) = [98]" for msgs
    by (simp_all add: get_model_response_def demo_client_def strip_def is_space_def)
  have tmo: "timeout_seconds (roundtable demo_config) = 30" by (simp add: demo_config_def)
  from parallel_round_deadline [OF d i0, of demo_config demo_client slow_timing demo_seed]
  obtain rs where slow: "snd (run_parallel_round demo_config demo_client slow_timing demo_seed [[97], [98]]) = Inr rs"
    and slow0: "rs ! 0 = ([97], [97])"
    by (auto simp: prod_eq_iff tmo ra slow_timing_def in_time_def)
  from parallel_round_deadline [OF d i1, of demo_config demo_client slow_timing demo_seed] slow
  have slow1: "rs ! 1 = ([98], [98])"
    by (auto simp: prod_eq_iff tmo rb slow_timing_def in_time_def)
  from parallel_round_deadline [OF d i1, of demo_config demo_client late_timing demo_seed]
  obtain rs' where late: "snd (run_parallel_round demo_config demo_client late_timing demo_seed [[97], [98]]) = Inr rs'"
    and late1: "rs' ! 1 = ([98], timed_out_marker [98])"
    by (auto simp: prod_eq_iff tmo rb late_timing_def in_time_def)
  from parallel_round_deadline [OF d i0, of demo_config demo_client tie_timing demo_seed]
  obtain rs'' where tie: "snd (run_parallel_round demo_config demo_client tie_timing demo_seed [[97], [98]]) = Inr rs''"
    and tie0: "rs'' ! 0 = ([97], timed_out_marker [97])"
    by (auto simp: prod_eq_iff tmo ra tie_timing_def in_time_def)
  from parallel_round_deadline [OF d i1, of demo_config demo_client tie_timing demo_seed] tie
  have tie1: "rs'' ! 1 = ([98], [98])"
    by (auto simp: prod_eq_iff tmo rb tie_timing_def in_time_def)
  show ?thesis
    by (intro conjI exI [of _ rs] exI [of _ rs'] exI [of _ rs''])
       (rule d slow slow0 slow1 late late1 tie tie0 tie1)+
qed

theorem parallel_round_deadline_counterexample:
  "timeout_seconds (roundtable demo_config) < int (slow_timing [98] [])
   \<and> snd (run_parallel_round demo_config demo_client slow_timing [] [[97], [98]])
       = Inr [([97], [97]), ([98], [98])]
   \<and> [98] \<noteq> timed_out_marker [98]"
  by (simp add: run_parallel_round_def demo_config_def demo_client_def slow_timing_def wait_for_def
      get_model_response_def strip_def is_space_def timed_out_marker_def)




section \<open>Timing and roles\<close>

lemma wait_for_in_time: "int (fst t) < tmo \<Longrightarrow> snd (wait_for t tmo now first) = snd t"
  by (simp add: wait_for_spec in_time_short)

lemma parallel_loop_in_time:
  "\<forall>m\<in>set ms. int (t1 m) < tmo \<and> int (t2 m) < tmo
   \<Longrightarrow> parallel_loop tmo now1 first (map (\<lambda>m. (m, (t1 m, r m))) ms) rs
       = parallel_loop tmo now2 first (map (\<lambda>m. (m, (t2 m, r m))) ms) rs"
proof (induction ms arbitrary: now1 now2 first rs)
  case Nil
  then show ?case by simp
next
  case (Cons m ms)
  then show ?case by (simp add: wait_for_in_time)
qed

lemma run_parallel_round_in_time:
  assumes "\<forall>m msgs. int (t1 m msgs) < timeout_seconds (roundtable cfg)
                  \<and> int (t2 m msgs) < timeout_seconds (roundtable cfg)"
  shows "run_parallel_round cfg client t1 conv ms = run_parallel_round cfg client t2 conv ms"
proof -
  have "\<forall>m\<in>set ms. int (t1 m conv) < timeout_seconds (roundtable cfg)
                 \<and> int (t2 m conv) < timeout_seconds (roundtable cfg)"
    using assms by simp
  from parallel_loop_in_time [where ?t1.0="\<lambda>m. t1 m conv" and ?t2.0="\<lambda>m. t2 m conv", OF this]
  show ?thesis by (simp add: run_parallel_round_def)
qed

lemma rounds_loop_timing:
  assumes "par \<longrightarrow> (\<forall>m msgs. int (t1 m msgs) < timeout_seconds (roundtable cfg)
                          \<and> int (t2 m msgs) < timeout_seconds (roundtable cfg))"
  shows "rounds_loop cfg client t1 par ms n conv calls = rounds_loop cfg client t2 par ms n conv calls"
proof (induction n arbitrary: conv calls)
  case 0
  then show ?case by simp
next
  case (Suc n)
  have "(if par then run_parallel_round cfg client t1 conv ms else run_sequential_round cfg client conv ms)
      = (if par then run_parallel_round cfg client t2 conv ms else run_sequential_round cfg client conv ms)"
    using assms by (simp add: run_parallel_round_in_time)
  then show ?case by (simp only: rounds_loop.simps Suc.IH)
qed

text \<open>
  C8, as the code has it: with the same settings, client and prompt, two sequential runs
  are equal whatever the timing of the calls, and two parallel runs are equal when every
  call takes less than \<open>timeout_seconds\<close> in both.
\<close>

theorem roundtable_chat_deterministic:
  assumes "par \<longrightarrow> (\<forall>m msgs. int (t1 m msgs) < timeout_seconds (roundtable cfg)
                          \<and> int (t2 m msgs) < timeout_seconds (roundtable cfg))"
  shows "roundtable_chat cfg client t1 prompt par = roundtable_chat cfg client t2 prompt par"
  using rounds_loop_timing [OF assms] by (simp add: roundtable_chat_def Let_def)

theorem roundtable_chat_deterministic_witness:
  "(\<forall>m msgs. int (demo_timing m msgs) < timeout_seconds (roundtable demo_config)
              \<and> int (slow_timing m [] - 29) < timeout_seconds (roundtable demo_config))
   \<and> roundtable_chat demo_config demo_client demo_timing [104, 105] True
       = roundtable_chat demo_config demo_client (\<lambda>m msgs. slow_timing m [] - 29) [104, 105] True"
proof -
  have h: "True \<longrightarrow> (\<forall>m msgs. int (demo_timing m msgs) < timeout_seconds (roundtable demo_config)
              \<and> int (slow_timing m [] - 29) < timeout_seconds (roundtable demo_config))"
    by (simp add: demo_timing_def slow_timing_def demo_config_def)
  from roundtable_chat_deterministic [OF h] h show ?thesis by simp
qed

theorem roundtable_chat_deterministic_counterexample:
  "snd (roundtable_chat demo_config demo_client demo_timing [104, 105] True)
     \<noteq> snd (roundtable_chat demo_config demo_client late_timing [104, 105] True)"
  by (simp add: roundtable_chat_def run_parallel_round_def demo_config_def demo_client_def
      demo_timing_def late_timing_def wait_for_def get_model_response_def strip_def is_space_def
      timed_out_marker_def numeral_2_eq_2 Let_def assistant_turn_def ChatMessage_init_def)

text \<open>
  C9: with role-based prompting and rotation, the role of a model in round \<open>r\<close> is the
  element \<open>r mod n\<close> of its \<open>n\<close> assigned roles; a model assigned generator and critic
  plays generator, critic, generator, critic in the rounds 0 to 3; a model with no
  assignment goes through generator, critic, refiner, evaluator.
\<close>

theorem active_role_rotation:
  assumes "use_role_based_prompting settings" and "role_rotation settings"
  shows "(\<forall>rs. role_assignments settings m = Some rs \<and> rs \<noteq> [] \<longrightarrow>
            active_role_for m r settings = Some (rs ! (r mod length rs)))
     \<and> (role_assignments settings m = Some [generator, critic] \<longrightarrow>
            map (\<lambda>r. active_role_for m r settings) [0, 1, 2, 3]
              = [Some generator, Some critic, Some generator, Some critic])
     \<and> (role_assignments settings m = None \<longrightarrow>
            active_role_for m r settings
              = Some ([generator, critic, refiner, evaluator] ! (r mod 4)))"
proof -
  have rot: "active_role_for m k settings
      = Some (assigned_roles settings m ! (k mod length (assigned_roles settings m)))" for k
    using assms by (simp add: active_role_for_def)
  have a: "active_role_for m r settings = Some (rs ! (r mod length rs))"
    if "role_assignments settings m = Some rs" "rs \<noteq> []" for rs
    using that by (simp add: rot assigned_roles_def)
  have b: "map (\<lambda>r. active_role_for m r settings) [0, 1, 2, 3]
              = [Some generator, Some critic, Some generator, Some critic]"
    if "role_assignments settings m = Some [generator, critic]"
  proof -
    have two: "assigned_roles settings m = [generator, critic]"
      using that by (simp add: assigned_roles_def)
    have "(2::nat) mod Suc (Suc 0) = 0" and "(3::nat) mod Suc (Suc 0) = 1"
      by presburger+
    then show ?thesis by (simp add: rot two)
  qed
  have c: "active_role_for m r settings
              = Some ([generator, critic, refiner, evaluator] ! (r mod 4))"
    if "role_assignments settings m = None"
    using that by (simp add: rot assigned_roles_def canonical_roles_def)
  from a b c show ?thesis by blast
qed

theorem active_role_rotation_witness:
  "use_role_based_prompting demo_roles \<and> role_rotation demo_roles
   \<and> role_assignments demo_roles [97] = Some [generator, critic]
   \<and> map (\<lambda>r. active_role_for [97] r demo_roles) [0, 1, 2, 3]
       = [Some generator, Some critic, Some generator, Some critic]
   \<and> role_assignments demo_roles [98] = None
   \<and> active_role_for [98] 6 demo_roles = Some refiner"
proof -
  have u: "use_role_based_prompting demo_roles" and r: "role_rotation demo_roles"
    by (simp_all add: demo_roles_def)
  have a: "role_assignments demo_roles [97] = Some [generator, critic]"
    and n: "role_assignments demo_roles [98] = None"
    by (simp_all add: demo_roles_def)
  have m: "map (\<lambda>r. active_role_for [97] r demo_roles) [0, 1, 2, 3]
       = [Some generator, Some critic, Some generator, Some critic]"
    by (rule active_role_rotation [OF u r, of "[97]" 0, THEN conjunct2, THEN conjunct1, THEN mp, OF a])
  have "active_role_for [98] 6 demo_roles
      = Some ([generator, critic, refiner, evaluator] ! (6 mod 4))"
    by (rule active_role_rotation [OF u r, of "[98]" 6, THEN conjunct2, THEN conjunct2, THEN mp, OF n])
  moreover have "(6 :: nat) mod 4 = Suc (Suc 0)" by presburger
  ultimately have e: "active_role_for [98] 6 demo_roles = Some refiner"
    by (simp only: nth_Cons_Suc nth_Cons_0)
  from u r a m n e show ?thesis by (intro conjI)
qed

section \<open>Configuration lookup\<close>

text \<open>
  C10: \<open>get_model_config\<close> raises \<open>ValueError\<close> exactly when the name is not a key of
  \<open>models\<close>; for a key it returns the stored \<open>ModelConfig\<close>; in both cases the
  configuration is left as it was.
\<close>

theorem get_model_config_spec:
  "((\<exists>msg. fst (get_model_config cfg name) = Inl (ValueError msg)) \<longleftrightarrow> name \<notin> dom (models cfg))
   \<and> (\<forall>mc. models cfg name = Some mc \<longrightarrow> fst (get_model_config cfg name) = Inr mc)
   \<and> snd (get_model_config cfg name) = cfg"
  by (auto simp: get_model_config_def split: option.splits)

theorem get_model_config_spec_witness:
  "models demo_config [97] = Some demo_model
   \<and> fst (get_model_config demo_config [97]) = Inr demo_model
   \<and> snd (get_model_config demo_config [97]) = demo_config
   \<and> [122] \<notin> dom (models demo_config)
   \<and> (\<exists>msg. fst (get_model_config demo_config [122]) = Inl (ValueError msg))"
  using get_model_config_spec [of demo_config "[97]"] get_model_config_spec [of demo_config "[122]"]
  by (simp add: demo_config_def)

end
